theory Spec2Isabelle
  imports Main "HOL-Library.Word" "HOL-Library.List_Lexorder"
begin

unbundle bit_operations_syntax

section \<open>Machine types and results\<close>

text \<open>
  Go's \<open>byte\<close>, \<open>uint64\<close> and \<open>int64\<close> (C's \<open>uint64_t\<close>, \<open>int64_t\<close>) are words; a
  signed word is read through \<open>sint\<close>, an unsigned one through \<open>uint\<close>. The casts
  \<open>uint64(x)\<close> and \<open>C.int64_t(x)\<close> between the two 64-bit types keep every bit, so both
  are the same word type here. \<open>*big.Int\<close> is \<open>int\<close>.
\<close>

type_synonym byte = "8 word"
type_synonym uint64 = "64 word"
type_synonym int64 = "64 word"

text \<open>
  A returned \<open>error\<close> carries its message (\<open>Errorf\<close>); a run-time panic of Go is the
  second constructor. Functions of the standard library that have no error result
  return \<open>None\<close> where Go panics.
\<close>

datatype error = Errorf string | RuntimePanic string

section \<open>The standard library's \<open>math/big\<close>, as far as \<open>types.go\<close> calls it\<close>

definition NewInt :: "int64 \<Rightarrow> int" where
  "NewInt x = sint x"

definition SetUint64 :: "uint64 \<Rightarrow> int" where
  "SetUint64 x = uint x"

definition Lsh :: "int \<Rightarrow> nat \<Rightarrow> int" where
  "Lsh x n = push_bit n x"

text \<open>
  \<open>QuoRem\<close> is Go's truncated division (the quotient rounds towards zero, the
  remainder has the sign of the dividend); \<open>DivMod\<close> calls it and then adjusts a
  negative remainder, as \<open>math/big\<close> does. Both panic on a zero divisor.
\<close>

definition QuoRem :: "int \<Rightarrow> int \<Rightarrow> (int \<times> int) option" where
  "QuoRem x y =
     (if y = 0 then None
      else Some (sgn x * sgn y * (\<bar>x\<bar> div \<bar>y\<bar>), sgn x * (\<bar>x\<bar> mod \<bar>y\<bar>)))"

definition DivMod :: "int \<Rightarrow> int \<Rightarrow> (int \<times> int) option" where
  "DivMod x y =
     (case QuoRem x y of
        None \<Rightarrow> None
      | Some (q, m) \<Rightarrow>
          if m < 0 then (if y < 0 then Some (q + 1, m - y) else Some (q - 1, m + y))
          else Some (q, m))"

definition IsInt64 :: "int \<Rightarrow> bool" where
  "IsInt64 x = (- (2 ^ 63) \<le> x \<and> x \<le> 2 ^ 63 - 1)"

text \<open>
  \<open>Int64\<close> and \<open>Uint64\<close> of \<open>big.Int\<close> take the low 64 bits of the magnitude;
  \<open>Int64\<close> then negates for a negative value, \<open>Uint64\<close> drops the sign.
\<close>

definition Int_Int64 :: "int \<Rightarrow> int64" where
  "Int_Int64 x = (let v = word_of_int \<bar>x\<bar> in if x < 0 then - v else v)"

definition Int_Uint64 :: "int \<Rightarrow> uint64" where
  "Int_Uint64 x = word_of_int \<bar>x\<bar>"

text \<open>\<open>big.Int.String\<close>: the decimal digits, after a \<open>-\<close> for a negative value.\<close>

definition digit_char :: "nat \<Rightarrow> char" where
  "digit_char n = char_of (48 + n)"

fun nat_digits :: "nat \<Rightarrow> string" where
  "nat_digits n =
     (if n < 10 then [digit_char n]
      else nat_digits (n div 10) @ [digit_char (n mod 10)])"

declare nat_digits.simps [simp del]

definition Int_String :: "int \<Rightarrow> string" where
  "Int_String x = (if x < 0 then ''-'' @ nat_digits (nat (- x)) else nat_digits (nat x))"

section \<open>\<open>duckdb_hugeint\<close> and its conversions\<close>

text \<open>
  The C struct \<open>duckdb_hugeint\<close> of \<open>duckdb.h\<close>: \<open>uint64_t lower; int64_t upper\<close>.
\<close>

record duckdb_hugeint =
  lower :: uint64
  upper :: int64

definition hugeIntToNative :: "duckdb_hugeint \<Rightarrow> int" where
  "hugeIntToNative hi =
     (let i = NewInt (upper hi);
          i = Lsh i 64;
          i = i + SetUint64 (lower hi)
      in i)"

definition hugeIntFromNative :: "int \<Rightarrow> error + duckdb_hugeint" where
  "hugeIntFromNative i =
     (let d = Lsh 1 64 in
      case DivMod i d of
        None \<Rightarrow> Inl (RuntimePanic ''division by zero'')
      | Some (q, r) \<Rightarrow>
          if \<not> IsInt64 q
          then Inl (Errorf (''big.Int('' @ Int_String i @ '') is too big for HUGEINT''))
          else Inr \<lparr>lower = Int_Uint64 r, upper = Int_Int64 q\<rparr>)"

section \<open>UUID\<close>

text \<open>
  \<open>encoding/binary\<close>: \<open>BigEndian.Uint64\<close> reads and \<open>BigEndian.PutUint64\<close> writes the
  first eight bytes of a slice, and both panic on a shorter one.
\<close>

definition BigEndian_Uint64 :: "byte list \<Rightarrow> uint64 option" where
  "BigEndian_Uint64 b =
     (if length b < 8 then None
      else Some (ucast (b ! 7) OR push_bit 8 (ucast (b ! 6)) OR push_bit 16 (ucast (b ! 5))
        OR push_bit 24 (ucast (b ! 4)) OR push_bit 32 (ucast (b ! 3))
        OR push_bit 40 (ucast (b ! 2)) OR push_bit 48 (ucast (b ! 1))
        OR push_bit 56 (ucast (b ! 0))))"

definition BigEndian_PutUint64 :: "byte list \<Rightarrow> uint64 \<Rightarrow> byte list option" where
  "BigEndian_PutUint64 b v =
     (if length b < 8 then None
      else Some (b[0 := ucast (drop_bit 56 v), 1 := ucast (drop_bit 48 v),
        2 := ucast (drop_bit 40 v), 3 := ucast (drop_bit 32 v),
        4 := ucast (drop_bit 24 v), 5 := ucast (drop_bit 16 v),
        6 := ucast (drop_bit 8 v), 7 := ucast v]))"

text \<open>
  \<open>type UUID [uuid_length]byte\<close>: a byte list, of length \<open>uuid_length\<close> wherever a
  value of the array type is meant. A slice expression \<open>a[:8]\<close> is \<open>take 8 a\<close> and
  \<open>a[8:]\<close> is \<open>drop 8 a\<close>; a write through a slice of an array is written back into
  the array.
\<close>

definition uuid_length :: nat where
  "uuid_length = 16"

type_synonym UUID = "byte list"

definition hugeIntToUUID :: "duckdb_hugeint \<Rightarrow> byte list option" where
  "hugeIntToUUID hi =
     (let uuid = replicate uuid_length (0 :: byte) in
       (case BigEndian_PutUint64 (take 8 uuid) ((upper hi) XOR (push_bit 63 1)) of
          None \<Rightarrow> None
        | Some front \<Rightarrow>
            (let uuid = front @ drop 8 uuid in
              (case BigEndian_PutUint64 (drop 8 uuid) (lower hi) of
                 None \<Rightarrow> None
               | Some back \<Rightarrow> Some (take 8 uuid @ back)))))"

definition uuidToHugeInt :: "UUID \<Rightarrow> duckdb_hugeint option" where
  "uuidToHugeInt uuid =
     (case BigEndian_Uint64 (take 8 uuid) of
        None \<Rightarrow> None
      | Some upper0 \<Rightarrow>
          (let upper1 = (upper0 XOR (push_bit 63 1)) in
            (case BigEndian_Uint64 (drop 8 uuid) of
               None \<Rightarrow> None
             | Some lower0 \<Rightarrow> Some \<lparr>lower = lower0, upper = upper1\<rparr>)))"

text \<open>
  The number that a byte sequence denotes when read big-endian (most significant byte
  first). It is used to compare the lexicographic order of UUIDs with the numeric
  order of their 128-bit integers.
\<close>

definition big_endian_value :: "byte list \<Rightarrow> nat" where
  "big_endian_value bs = foldl (\<lambda>acc b. acc * 256 + unat b) 0 bs"

text \<open>
  \<open>UUID.Scan\<close>. The argument of type \<open>any\<close> is a byte slice, a string, or a value of
  another dynamic type (of which the model keeps the name that \<open>%T\<close> prints).
  \<open>uuid.Parse\<close> of \<open>github.com/google/uuid\<close> is a parameter. The result is the
  receiver after the call and the returned error. The builtin \<open>copy\<close> overwrites
  the first \<open>min (len dst) (len src)\<close> elements of \<open>dst\<close>; the conversion
  \<open>string(val)\<close> keeps the bytes.
\<close>

datatype any = ByteSlice "byte list" | GoString string | OtherType string

definition copy :: "'a list \<Rightarrow> 'a list \<Rightarrow> 'a list" where
  "copy dst src = take (length dst) src @ drop (length src) dst"

definition string_of_bytes :: "byte list \<Rightarrow> string" where
  "string_of_bytes val = map (\<lambda>b. char_of (unat b)) val"

function UUID_Scan ::
  "(string \<Rightarrow> error + byte list) \<Rightarrow> UUID \<Rightarrow> any \<Rightarrow> UUID \<times> error option" where
  "UUID_Scan Parse u (ByteSlice val) =
     (if length val \<noteq> uuid_length
      then UUID_Scan Parse u (GoString (string_of_bytes val))
      else (copy u val, None))"
| "UUID_Scan Parse u (GoString val) =
     (case Parse val of
        Inl err \<Rightarrow> (u, Some err)
      | Inr id' \<Rightarrow> (copy u id', None))"
| "UUID_Scan Parse u (OtherType T) =
     (u, Some (Errorf (''invalid UUID value type: '' @ T)))"
  by pat_completeness auto
termination
  by (relation "measure (\<lambda>(Parse, u, v). case v of ByteSlice _ \<Rightarrow> 1 | _ \<Rightarrow> 0)") auto

section \<open>Interval\<close>

record Interval =
  Days :: "32 word"
  Months :: "32 word"
  Micros :: "64 word"

section \<open>Decimal\<close>

text \<open>
  \<open>Value\<close> is the integer that the \<open>*big.Int\<close> of the struct points to. String
  indices and counts are Go's \<open>int\<close>; a slice expression out of range and a negative
  \<open>strings.Repeat\<close> count panic, which is \<open>None\<close>. \<open>strings.TrimRightFunc\<close> removes
  the longest suffix whose characters all satisfy the predicate.
\<close>

record Decimal =
  Width :: "8 word"
  Scale :: "8 word"
  Value :: int

definition Sign :: "int \<Rightarrow> int" where
  "Sign x = (if x < 0 then - 1 else if x = 0 then 0 else 1)"

definition slice_from :: "string \<Rightarrow> int \<Rightarrow> string option" where
  "slice_from s i = (if 0 \<le> i \<and> i \<le> int (length s) then Some (drop (nat i) s) else None)"

definition slice_to :: "string \<Rightarrow> int \<Rightarrow> string option" where
  "slice_to s j = (if 0 \<le> j \<and> j \<le> int (length s) then Some (take (nat j) s) else None)"

definition Repeat :: "string \<Rightarrow> int \<Rightarrow> string option" where
  "Repeat s count = (if count < 0 then None else Some (concat (replicate (nat count) s)))"

definition TrimRightFunc :: "string \<Rightarrow> (char \<Rightarrow> bool) \<Rightarrow> string" where
  "TrimRightFunc s f = rev (dropWhile f (rev s))"

definition Decimal_String :: "Decimal \<Rightarrow> string option" where
  "Decimal_String d =
     (if Sign (Value d) = 0 then Some ''0''
      else
        case (if Sign (Value d) < 0
              then map_option (Pair ''-'') (slice_from (Int_String (Value d)) 1)
              else Some ([], Int_String (Value d))) of
          None \<Rightarrow> None
        | Some (signStr, scaleless) \<Rightarrow>
            let zeroTrimmed = TrimRightFunc scaleless (\<lambda>r. r = CHR ''0'');
                scale = uint (Scale d) - (int (length scaleless) - int (length zeroTrimmed))
            in
              if scale \<le> 0 then
                (case Repeat ''0'' (- 1 * scale) of
                   None \<Rightarrow> None
                 | Some zeros \<Rightarrow> Some (signStr @ zeroTrimmed @ zeros))
              else if int (length zeroTrimmed) \<le> scale then
                (case Repeat ''0'' (scale - int (length zeroTrimmed)) of
                   None \<Rightarrow> None
                 | Some zeros \<Rightarrow> Some (signStr @ ''0.'' @ zeros @ zeroTrimmed))
              else
                (case slice_to zeroTrimmed (int (length zeroTrimmed) - scale) of
                   None \<Rightarrow> None
                 | Some whole \<Rightarrow>
                     (case slice_from zeroTrimmed (int (length zeroTrimmed) - scale) of
                        None \<Rightarrow> None
                      | Some frac \<Rightarrow> Some (signStr @ whole @ ''.'' @ frac))))"

text \<open>
  The text of section 4.3 of the specification, step by step, for comparison with
  \<open>Decimal_String\<close>: the sign is recorded apart, the magnitude is written as a plain
  integer, its trailing zeros are trimmed and counted, and the scale is reduced by
  that count.
\<close>

definition trailing_zeros :: "string \<Rightarrow> nat" where
  "trailing_zeros s = length (takeWhile (\<lambda>c. c = CHR ''0'') (rev s))"

definition toString_spec :: "nat \<Rightarrow> int \<Rightarrow> string" where
  "toString_spec scale magnitude =
     (if magnitude = 0 then ''0''
      else
        let sign = (if magnitude < 0 then ''-'' else []);
            digits = nat_digits (nat \<bar>magnitude\<bar>);
            trimmed = take (length digits - trailing_zeros digits) digits;
            reduced = int scale - int (trailing_zeros digits)
        in
          if reduced \<le> 0 then sign @ trimmed @ replicate (nat (- reduced)) (CHR ''0'')
          else if int (length trimmed) \<le> reduced
          then sign @ ''0.'' @ replicate (nat reduced - length trimmed) (CHR ''0'') @ trimmed
          else sign @ take (length trimmed - nat reduced) trimmed @ ''.''
                 @ drop (length trimmed - nat reduced) trimmed)"

text \<open>
  Reading a decimal text back, to say what a text denotes: an optional leading \<open>-\<close>,
  the digits before the point and the digits after it. \<open>digits_value\<close> is the number
  that a digit string writes in base ten.
\<close>

definition is_digit :: "char \<Rightarrow> bool" where
  "is_digit c = (48 \<le> (of_char c :: nat) \<and> (of_char c :: nat) \<le> 57)"

definition digit_value :: "char \<Rightarrow> nat" where
  "digit_value c = of_char c - 48"

definition digits_value :: "string \<Rightarrow> nat" where
  "digits_value s = foldl (\<lambda>acc c. acc * 10 + digit_value c) 0 s"

definition text_negative :: "string \<Rightarrow> bool" where
  "text_negative t = (take 1 t = ''-'')"

definition text_body :: "string \<Rightarrow> string" where
  "text_body t = (if text_negative t then drop 1 t else t)"

definition text_whole :: "string \<Rightarrow> string" where
  "text_whole t = takeWhile (\<lambda>c. c \<noteq> CHR ''.'') (text_body t)"

definition text_fraction :: "string \<Rightarrow> string" where
  "text_fraction t = drop 1 (dropWhile (\<lambda>c. c \<noteq> CHR ''.'') (text_body t))"

section \<open>Facts about the big-integer operations\<close>

lemma QuoRem_pos:
  assumes "0 < y"
  shows "QuoRem x y =
    Some (if 0 \<le> x then (x div y, x mod y) else (- ((- x) div y), - ((- x) mod y)))"
  using assms by (simp add: QuoRem_def sgn_if)

lemma DivMod_pos:
  assumes "0 < y"
  shows "DivMod x y = Some (x div y, x mod y)"
proof (cases "0 \<le> x")
  case True
  have "\<not> x mod y < 0" using assms by (simp add: not_less)
  with True assms show ?thesis
    by (simp add: DivMod_def QuoRem_pos)
next
  case False
  show ?thesis
  proof (cases "(- x) mod y = 0")
    case True
    then have "y dvd x"
      by (simp add: mod_eq_0_iff_dvd)
    then have "x mod y = 0" "x div y = - ((- x) div y)"
      by (simp_all add: dvd_neg_div)
    with False True assms show ?thesis
      by (simp add: DivMod_def QuoRem_pos)
  next
    case nz: False
    have "0 \<le> (- x) mod y" using assms by simp
    with nz have neg: "- ((- x) mod y) < 0" by simp
    have "x div y = - ((- x) div y) - 1" "x mod y = y - (- x) mod y"
      using assms nz zdiv_zminus1_eq_if [of y "- x"] zmod_zminus1_eq_if [of "- x" y]
      by simp_all
    with False neg assms show ?thesis
      by (simp add: DivMod_def QuoRem_pos)
  qed
qed

lemma Lsh_1_64: "Lsh 1 64 = 2 ^ 64"
  by (simp add: Lsh_def)

lemma hugeIntToNative_eq:
  "hugeIntToNative hi = sint (upper hi) * 2 ^ 64 + uint (lower hi)"
  by (simp add: hugeIntToNative_def NewInt_def Lsh_def SetUint64_def push_bit_eq_mult)

lemma hugeIntFromNative_eq:
  "hugeIntFromNative i =
     (if \<not> IsInt64 (i div 2 ^ 64)
      then Inl (Errorf (''big.Int('' @ Int_String i @ '') is too big for HUGEINT''))
      else Inr \<lparr>lower = Int_Uint64 (i mod 2 ^ 64), upper = Int_Int64 (i div 2 ^ 64)\<rparr>)"
  by (simp add: hugeIntFromNative_def Lsh_1_64 DivMod_pos)

lemma Int_Uint64_mod: "uint (Int_Uint64 (i mod 2 ^ 64)) = i mod 2 ^ 64"
proof -
  have "0 \<le> i mod (2 ^ 64 :: int)" by simp
  then have "Int_Uint64 (i mod 2 ^ 64) = word_of_int (i mod 2 ^ 64)"
    by (simp add: Int_Uint64_def)
  then show ?thesis
    by (simp add: uint_word_of_int)
qed

lemma Int_Int64_eq: "Int_Int64 q = word_of_int q"
  by (simp add: Int_Int64_def Let_def)

lemma sint_Int_Int64:
  assumes "IsInt64 q"
  shows "sint (Int_Int64 q) = q"
proof -
  have "- (2 ^ 63) \<le> q" "q < 2 ^ 63"
    using assms by (simp_all add: IsInt64_def)
  then have "signed_take_bit 63 q = q"
    by (simp add: signed_take_bit_int_eq_self)
  then show ?thesis
    by (simp add: Int_Int64_eq sint_sbintrunc')
qed

lemma IsInt64_sint: "IsInt64 (sint (w :: 64 word))"
proof -
  have "- (2 ^ 63) \<le> sint w" "sint w < 2 ^ 63"
    using sint_greater_eq [of w] sint_less [of w] by simp_all
  then show ?thesis
    by (simp add: IsInt64_def)
qed

lemma IsInt64_div_iff:
  "IsInt64 (i div 2 ^ 64) \<longleftrightarrow> - (2 ^ 127) \<le> i \<and> i \<le> 2 ^ 127 - 1"
proof -
  define q r where "q = i div 2 ^ 64" and "r = i mod 2 ^ 64"
  have i: "i = 18446744073709551616 * q + r"
    by (simp add: q_def r_def)
  have r: "0 \<le> r" "r < 18446744073709551616"
    by (simp_all add: r_def)
  have "IsInt64 q \<longleftrightarrow> - (2 ^ 127) \<le> i \<and> i \<le> 2 ^ 127 - 1"
    unfolding IsInt64_def using i r by simp linarith
  then show ?thesis
    by (simp add: q_def)
qed

lemma hugeIntToNative_div_mod:
  "hugeIntToNative v div 2 ^ 64 = sint (upper v)"
  "hugeIntToNative v mod 2 ^ 64 = uint (lower v)"
proof -
  have l: "0 \<le> uint (lower v)" "uint (lower v) < 2 ^ 64"
    using uint_lt2p [of "lower v"] by simp_all
  then show "hugeIntToNative v div 2 ^ 64 = sint (upper v)"
    unfolding hugeIntToNative_eq by (simp add: div_pos_pos_trivial)
  from l show "hugeIntToNative v mod 2 ^ 64 = uint (lower v)"
    unfolding hugeIntToNative_eq by (simp add: mod_pos_pos_trivial)
qed

lemma hugeIntFromNative_hugeIntToNative:
  "hugeIntFromNative (hugeIntToNative v) = Inr v"
proof -
  have "Int_Uint64 (uint (lower v)) = lower v"
    by (simp add: Int_Uint64_def)
  moreover have "Int_Int64 (sint (upper v)) = upper v"
    by (simp add: Int_Int64_eq)
  ultimately show ?thesis
    unfolding hugeIntFromNative_eq hugeIntToNative_div_mod
    by (simp add: IsInt64_sint)
qed

lemma hugeIntFromNative_in_range:
  assumes "IsInt64 (i div 2 ^ 64)"
  shows "\<exists>h. hugeIntFromNative i = Inr h \<and> hugeIntToNative h = i
           \<and> sint (upper h) = i div 2 ^ 64 \<and> uint (lower h) = i mod 2 ^ 64"
proof -
  let ?h = "\<lparr>lower = Int_Uint64 (i mod 2 ^ 64), upper = Int_Int64 (i div 2 ^ 64)\<rparr>"
  have "hugeIntFromNative i = Inr ?h"
    using assms by (simp add: hugeIntFromNative_eq)
  moreover have hi: "sint (upper ?h) = i div 2 ^ 64" and lo: "uint (lower ?h) = i mod 2 ^ 64"
    using assms by (simp_all only: duckdb_hugeint.simps sint_Int_Int64 Int_Uint64_mod)
  moreover have "hugeIntToNative ?h = i"
    unfolding hugeIntToNative_eq hi lo by simp
  ultimately show ?thesis by blast
qed

lemma hugeint_value_range:
  fixes a b :: "64 word"
  shows "- (2 ^ 127) \<le> sint a * 2 ^ 64 + uint b" "sint a * 2 ^ 64 + uint b < 2 ^ 127"
proof -
  define x y where "x = sint a" and "y = uint b"
  have x: "- 9223372036854775808 \<le> x" "x < 9223372036854775808"
    using sint_greater_eq [of a] sint_less [of a] by (simp_all add: x_def)
  have y: "0 \<le> y" "y < 18446744073709551616"
    using uint_lt2p [of b] by (simp_all add: y_def)
  have "- (2 ^ 127) \<le> x * 2 ^ 64 + y" "x * 2 ^ 64 + y < 2 ^ 127"
    using x y by simp_all
  then show "- (2 ^ 127) \<le> sint a * 2 ^ 64 + uint b" "sint a * 2 ^ 64 + uint b < 2 ^ 127"
    by (simp_all add: x_def y_def)
qed

text \<open>
  The 128-bit two's-complement word with \<open>upper\<close> as its high half and \<open>lower\<close> as
  its low half is \<open>word_cat upper lower\<close>; its signed value is what
  \<open>hugeIntToNative\<close> computes.
\<close>

lemma push_bit_ucast_scast:
  fixes a :: "64 word"
  shows "push_bit 64 (ucast a :: 128 word) = push_bit 64 (scast a)"
  by (rule bit_word_eqI) (auto simp add: bit_simps)

lemma word_cat_of_int:
  fixes a b :: "64 word"
  shows "(word_cat a b :: 128 word) = word_of_int (sint a * 2 ^ 64 + uint b)"
proof -
  have "(word_of_int (sint a * 2 ^ 64 + uint b) :: 128 word) = push_bit 64 (scast a) + ucast b"
    by (simp add: push_bit_eq_mult)
  moreover have "(word_cat a b :: 128 word) = push_bit 64 (ucast a) + ucast b"
    by (simp add: word_cat_eq)
  ultimately show ?thesis
    by (simp only: push_bit_ucast_scast)
qed

lemma sint_word_cat_64:
  fixes a b :: "64 word"
  shows "sint (word_cat a b :: 128 word) = sint a * 2 ^ 64 + uint b"
proof -
  have "signed_take_bit 127 (sint a * 2 ^ 64 + uint b) = sint a * 2 ^ 64 + uint b"
    using hugeint_value_range [of a b] by (rule signed_take_bit_int_eq_self)
  then show ?thesis
    by (simp only: word_cat_of_int sint_sbintrunc') simp
qed

section \<open>Facts about the big-endian byte order\<close>

lemma length_8_conv:
  "length b = 8 \<longleftrightarrow> (\<exists>b0 b1 b2 b3 b4 b5 b6 b7. b = [b0, b1, b2, b3, b4, b5, b6, b7])"
  by (auto simp add: eval_nat_numeral length_Suc_conv)

lemma BigEndian_Uint64_8:
  "BigEndian_Uint64 [b0, b1, b2, b3, b4, b5, b6, b7] =
     Some (ucast b7 OR push_bit 8 (ucast b6) OR push_bit 16 (ucast b5)
        OR push_bit 24 (ucast b4) OR push_bit 32 (ucast b3)
        OR push_bit 40 (ucast b2) OR push_bit 48 (ucast b1)
        OR push_bit 56 (ucast b0))"
  by (simp add: BigEndian_Uint64_def)

lemma BigEndian_PutUint64_8:
  "BigEndian_PutUint64 [c0, c1, c2, c3, c4, c5, c6, c7] v =
     Some [ucast (drop_bit 56 v), ucast (drop_bit 48 v), ucast (drop_bit 40 v),
       ucast (drop_bit 32 v), ucast (drop_bit 24 v), ucast (drop_bit 16 v),
       ucast (drop_bit 8 v), ucast v]"
  by (simp add: BigEndian_PutUint64_def)

lemma BigEndian_bytes:
  fixes b0 b1 b2 b3 b4 b5 b6 b7 :: byte
  defines "w \<equiv> (ucast b7 OR push_bit 8 (ucast b6) OR push_bit 16 (ucast b5)
        OR push_bit 24 (ucast b4) OR push_bit 32 (ucast b3)
        OR push_bit 40 (ucast b2) OR push_bit 48 (ucast b1)
        OR push_bit 56 (ucast b0) :: uint64)"
  shows "ucast (drop_bit 56 w) = b0" "ucast (drop_bit 48 w) = b1"
    "ucast (drop_bit 40 w) = b2" "ucast (drop_bit 32 w) = b3"
    "ucast (drop_bit 24 w) = b4" "ucast (drop_bit 16 w) = b5"
    "ucast (drop_bit 8 w) = b6" "ucast w = b7"
  unfolding w_def
  by (rule bit_word_eqI; auto simp add: bit_simps dest: bit_imp_le_length)+

lemma BigEndian_Put_Get:
  assumes "length b = 8" "length c = 8"
  shows "\<exists>w. BigEndian_Uint64 b = Some w \<and> BigEndian_PutUint64 c w = Some b"
proof -
  from assms(1) obtain b0 b1 b2 b3 b4 b5 b6 b7 where b: "b = [b0, b1, b2, b3, b4, b5, b6, b7]"
    unfolding length_8_conv by blast
  from assms(2) obtain c0 c1 c2 c3 c4 c5 c6 c7 where c: "c = [c0, c1, c2, c3, c4, c5, c6, c7]"
    unfolding length_8_conv by blast
  show ?thesis
    unfolding b c BigEndian_Uint64_8 BigEndian_PutUint64_8
    by (rule exI, rule conjI, rule refl) (simp only: BigEndian_bytes)
qed

lemma flip_flip: "(w XOR push_bit 63 1) XOR push_bit 63 1 = (w :: uint64)"
  by (simp add: xor.assoc)

lemma foldl_big_endian:
  "foldl (\<lambda>acc b. acc * 256 + unat (b :: byte)) a bs = a * 256 ^ length bs + big_endian_value bs"
proof (induction bs arbitrary: a)
  case Nil
  show ?case by (simp add: big_endian_value_def)
next
  case (Cons b bs)
  let ?f = "\<lambda>acc b. acc * 256 + unat (b :: byte)"
  have "foldl ?f a (b # bs) = (a * 256 + unat b) * 256 ^ length bs + big_endian_value bs"
    using Cons.IH [of "a * 256 + unat b"] by simp
  moreover have "big_endian_value (b # bs) = unat b * 256 ^ length bs + big_endian_value bs"
    using Cons.IH [of "unat b"] by (simp add: big_endian_value_def)
  ultimately show ?case
    by (simp add: algebra_simps)
qed

lemma big_endian_value_Nil: "big_endian_value [] = 0"
  by (simp add: big_endian_value_def)

lemma big_endian_value_Cons:
  "big_endian_value (b # bs) = unat b * 256 ^ length bs + big_endian_value bs"
  using foldl_big_endian [of "unat b" bs] by (simp add: big_endian_value_def)

lemma big_endian_value_append:
  "big_endian_value (xs @ ys) = big_endian_value xs * 256 ^ length ys + big_endian_value ys"
  using foldl_big_endian [of "big_endian_value xs" ys] by (simp add: big_endian_value_def)

lemma big_endian_value_less: "big_endian_value bs < 256 ^ length bs"
proof (induction bs)
  case Nil
  show ?case by (simp add: big_endian_value_Nil)
next
  case (Cons b bs)
  define N :: nat where "N = 256 ^ length bs"
  have "unat b < 256" using unsigned_less [of b] by simp
  then have "unat b + 1 \<le> 256" by simp
  then have "(unat b + 1) * N \<le> 256 * N"
    by (rule mult_le_mono1)
  moreover have "unat b * N + big_endian_value bs < (unat b + 1) * N"
    using Cons.IH by (simp add: N_def)
  ultimately have "unat b * N + big_endian_value bs < 256 * N"
    by (rule less_le_trans [rotated])
  then show ?case
    by (simp add: big_endian_value_Cons N_def)
qed

lemma digit_less_iff:
  fixes a b r s N :: nat
  assumes "r < N" "s < N"
  shows "a * N + r < b * N + s \<longleftrightarrow> a < b \<or> (a = b \<and> r < s)"
proof -
  consider "a < b" | "a = b" | "b < a" by linarith
  then show ?thesis
  proof cases
    case 1
    then have "(a + 1) * N \<le> b * N" by (intro mult_le_mono1) simp
    with assms 1 show ?thesis by simp
  next
    case 2
    then show ?thesis by simp
  next
    case 3
    then have "(b + 1) * N \<le> a * N" by (intro mult_le_mono1) simp
    with assms 3 show ?thesis by simp
  qed
qed

text \<open>
  On byte sequences of one length, the lexicographic order (of
  \<open>HOL-Library.List_Lexorder\<close>, over the unsigned order of bytes) is the order of
  the big-endian values.
\<close>

lemma lexicographic_iff_value:
  fixes xs ys :: "byte list"
  assumes "length xs = length ys"
  shows "xs < ys \<longleftrightarrow> big_endian_value xs < big_endian_value ys"
  using assms
proof (induction xs ys rule: list_induct2)
  case Nil
  show ?case by (simp add: big_endian_value_Nil)
next
  case (Cons x xs y ys)
  have "x = y \<longleftrightarrow> unat x = unat y" by (simp add: word_unat_eq_iff)
  with Cons show ?case
    using big_endian_value_less [of xs] big_endian_value_less [of ys]
    by (simp add: big_endian_value_Cons digit_less_iff word_less_nat_alt)
qed

lemma horner_step:
  fixes x :: uint64 and b :: byte
  shows "push_bit 8 x OR ucast b = x * 256 + of_nat (unat b)"
proof -
  have "push_bit 8 x AND ucast b = 0"
    by (rule bit_word_eqI) (auto simp add: bit_simps dest: bit_imp_le_length)
  then have "push_bit 8 x + ucast b = push_bit 8 x OR ucast b"
    by (rule disjunctive_add_eq_or)
  then show ?thesis
    by (simp add: push_bit_eq_mult)
qed

lemma or_horner:
  fixes b0 b1 b2 b3 b4 b5 b6 b7 :: byte
  shows "(ucast b7 OR push_bit 8 (ucast b6) OR push_bit 16 (ucast b5)
        OR push_bit 24 (ucast b4) OR push_bit 32 (ucast b3)
        OR push_bit 40 (ucast b2) OR push_bit 48 (ucast b1)
        OR push_bit 56 (ucast b0) :: uint64)
     = push_bit 8 (push_bit 8 (push_bit 8 (push_bit 8 (push_bit 8 (push_bit 8 (push_bit 8
         (ucast b0) OR ucast b1) OR ucast b2) OR ucast b3) OR ucast b4) OR ucast b5) OR ucast b6)
         OR ucast b7"
  by (simp add: push_bit_or push_bit_push_bit ac_simps)

lemma unat_BigEndian:
  fixes b0 b1 b2 b3 b4 b5 b6 b7 :: byte
  shows "unat (ucast b7 OR push_bit 8 (ucast b6) OR push_bit 16 (ucast b5)
        OR push_bit 24 (ucast b4) OR push_bit 32 (ucast b3)
        OR push_bit 40 (ucast b2) OR push_bit 48 (ucast b1)
        OR push_bit 56 (ucast b0) :: uint64)
     = big_endian_value [b0, b1, b2, b3, b4, b5, b6, b7]"
proof -
  let ?n = "big_endian_value [b0, b1, b2, b3, b4, b5, b6, b7]"
  have "(ucast b7 OR push_bit 8 (ucast b6) OR push_bit 16 (ucast b5)
        OR push_bit 24 (ucast b4) OR push_bit 32 (ucast b3)
        OR push_bit 40 (ucast b2) OR push_bit 48 (ucast b1)
        OR push_bit 56 (ucast b0) :: uint64) = word_of_nat ?n"
    unfolding or_horner horner_step
    by (simp add: big_endian_value_def)
  moreover have "?n < 2 ^ LENGTH(64)"
    using big_endian_value_less [of "[b0, b1, b2, b3, b4, b5, b6, b7]"] by simp
  ultimately show ?thesis
    by (simp only: of_nat_inverse)
qed

lemma flip_sign_of_int:
  fixes w :: uint64
  shows "w XOR push_bit 63 1 = word_of_int (uint w - 2 ^ 63)"
proof -
  have "w XOR push_bit 63 1 = flip_bit 63 w"
    by (simp add: flip_bit_eq_xor)
  also have "\<dots> = w - 2 ^ 63"
    by (simp add: flip_bit_eq_if set_bit_eq unset_bit_eq)
  also have "\<dots> = word_of_int (uint w - 2 ^ 63)"
    by simp
  finally show ?thesis .
qed

lemma sint_flip_sign:
  fixes w :: uint64
  shows "sint (w XOR push_bit 63 1) = uint w - 2 ^ 63"
proof -
  define k where "k = uint w"
  have "0 \<le> k" "k < 18446744073709551616"
    using uint_lt2p [of w] by (simp_all add: k_def)
  then have "- (2 ^ 63) \<le> k - 2 ^ 63" "k - 2 ^ 63 < 2 ^ 63"
    by simp_all
  then have "signed_take_bit 63 (k - 2 ^ 63) = k - 2 ^ 63"
    by (rule signed_take_bit_int_eq_self)
  then show ?thesis
    unfolding flip_sign_of_int sint_sbintrunc' k_def by simp
qed

text \<open>
  The integer of a UUID is its big-endian value moved down by \<open>2^127\<close>: the flip of
  the top bit turns the unsigned 128-bit number into the signed one.
\<close>

lemma hugeIntToNative_uuidToHugeInt:
  assumes "length u = uuid_length"
  shows "\<exists>h. uuidToHugeInt u = Some h
           \<and> hugeIntToNative h = int (big_endian_value u) - 2 ^ 127"
proof -
  have "length (take 8 u) = 8"
    using assms by (simp add: uuid_length_def)
  then obtain b0 b1 b2 b3 b4 b5 b6 b7 where t: "take 8 u = [b0, b1, b2, b3, b4, b5, b6, b7]"
    unfolding length_8_conv by blast
  have "length (drop 8 u) = 8"
    using assms by (simp add: uuid_length_def)
  then obtain c0 c1 c2 c3 c4 c5 c6 c7 where d: "drop 8 u = [c0, c1, c2, c3, c4, c5, c6, c7]"
    unfolding length_8_conv by blast
  obtain wu where wu: "BigEndian_Uint64 (take 8 u) = Some wu" "unat wu = big_endian_value (take 8 u)"
    unfolding t BigEndian_Uint64_8 by (simp add: unat_BigEndian)
  obtain wl where wl: "BigEndian_Uint64 (drop 8 u) = Some wl" "unat wl = big_endian_value (drop 8 u)"
    unfolding d BigEndian_Uint64_8 by (simp add: unat_BigEndian)
  let ?h = "\<lparr>lower = wl, upper = wu XOR push_bit 63 1\<rparr>"
  have h: "uuidToHugeInt u = Some ?h"
    by (simp add: uuidToHugeInt_def wu(1) wl(1))
  have "big_endian_value u = big_endian_value (take 8 u @ drop 8 u)"
    by simp
  also have "\<dots> = big_endian_value (take 8 u) * 2 ^ 64 + big_endian_value (drop 8 u)"
    unfolding big_endian_value_append using assms by (simp add: uuid_length_def)
  finally have v: "int (big_endian_value u) = uint wu * 2 ^ 64 + uint wl"
    by (simp add: uint_nat wu(2) wl(2))
  have "hugeIntToNative ?h = (uint wu - 2 ^ 63) * 2 ^ 64 + uint wl"
    unfolding hugeIntToNative_eq duckdb_hugeint.simps sint_flip_sign ..
  also have "\<dots> = int (big_endian_value u) - 2 ^ 127"
    unfolding v by (simp add: algebra_simps)
  finally show ?thesis
    using h by blast
qed

text \<open>The conversion \<open>string(val)\<close> loses nothing: the characters give the bytes back.\<close>

lemma byte_of_char_of:
  fixes b :: byte
  shows "(of_char (char_of (unat b)) :: byte) = b"
proof -
  have "unat b < 256"
    using unsigned_less [of b] by simp
  then have "(of_char (char_of (unat b)) :: nat) = unat b"
    by simp
  then have "of_nat (of_char (char_of (unat b)) :: nat) = (of_nat (unat b) :: byte)"
    by (rule arg_cong)
  then show ?thesis
    by (simp only: of_nat_of_char of_nat_unat ucast_id)
qed

lemma bytes_of_string_of_bytes:
  "map (\<lambda>c. of_char c :: byte) (map (\<lambda>b. char_of (unat b)) val) = val"
  by (simp add: byte_of_char_of comp_def)

section \<open>Facts about the decimal text\<close>

lemma nat_digits_small: "n < 10 \<Longrightarrow> nat_digits n = [digit_char n]"
  by (subst nat_digits.simps) simp

lemma nat_digits_large:
  "10 \<le> n \<Longrightarrow> nat_digits n = nat_digits (n div 10) @ [digit_char (n mod 10)]"
  by (subst nat_digits.simps) simp

lemma digit_chars:
  "digit_char 0 = CHR ''0''" "digit_char 1 = CHR ''1''" "digit_char 2 = CHR ''2''"
  "digit_char 3 = CHR ''3''" "digit_char 4 = CHR ''4''" "digit_char 5 = CHR ''5''"
  "digit_char 6 = CHR ''6''" "digit_char 7 = CHR ''7''" "digit_char 8 = CHR ''8''"
  "digit_char 9 = CHR ''9''" "digit_char (Suc 0) = CHR ''1''"
  by code_simp+

lemmas Decimal_String_eval =
  Decimal_String_def Sign_def Int_String_def nat_digits_small nat_digits_large digit_chars
  TrimRightFunc_def Repeat_def slice_from_def slice_to_def

lemma nat_digits_not_Nil: "nat_digits n \<noteq> []"
  by (subst nat_digits.simps) simp

lemma Int_String_neg:
  assumes "v < 0"
  shows "slice_from (Int_String v) 1 = Some (nat_digits (nat \<bar>v\<bar>))"
  using assms by (simp add: Int_String_def slice_from_def)

lemma Int_String_pos:
  assumes "0 < v"
  shows "Int_String v = nat_digits (nat \<bar>v\<bar>)"
  using assms by (simp add: Int_String_def)

lemma trailing_zeros_le: "trailing_zeros s \<le> length s"
  unfolding trailing_zeros_def
  using length_takeWhile_le [of "\<lambda>c. c = CHR ''0''" "rev s"] by simp

lemma TrimRightFunc_zero:
  "TrimRightFunc s (\<lambda>r. r = CHR ''0'') = take (length s - trailing_zeros s) s"
  by (simp add: TrimRightFunc_def trailing_zeros_def dropWhile_eq_drop rev_drop)

lemma Repeat_zero:
  assumes "0 \<le> n"
  shows "Repeat ''0'' n = Some (replicate (nat n) (CHR ''0''))"
proof -
  have "concat (replicate k ''0'') = replicate k (CHR ''0'')" for k
    by (induction k) simp_all
  with assms show ?thesis
    by (simp add: Repeat_def)
qed

text \<open>The body of the function after the sign has been taken off.\<close>

lemma Decimal_String_nonzero:
  assumes "Value d \<noteq> 0"
  shows "Decimal_String d = Some (toString_spec (unat (Scale d)) (Value d))"
proof -
  define sign where "sign = (if Value d < 0 then ''-'' else [])"
  define digits where "digits = nat_digits (nat \<bar>Value d\<bar>)"
  define k where "k = trailing_zeros digits"
  define trimmed where "trimmed = take (length digits - k) digits"
  define reduced where "reduced = uint (Scale d) - int k"
  have k: "k \<le> length digits"
    unfolding k_def by (rule trailing_zeros_le)
  have len: "length trimmed = length digits - k"
    by (simp add: trimmed_def)
  have split: "(if Sign (Value d) < 0
              then map_option (Pair ''-'') (slice_from (Int_String (Value d)) 1)
              else Some ([], Int_String (Value d))) = Some (sign, digits)"
    using assms by (simp add: Sign_def sign_def digits_def Int_String_neg Int_String_pos)
  have nz: "(Sign (Value d) = 0) = False"
    using assms by (simp add: Sign_def)
  have trim: "TrimRightFunc digits (\<lambda>r. r = CHR ''0'') = trimmed"
    by (simp add: TrimRightFunc_zero trimmed_def k_def)
  have scale: "uint (Scale d) - (int (length digits) - int (length trimmed)) = reduced"
    using k by (simp add: len reduced_def)
  have code: "Decimal_String d =
    (if reduced \<le> 0 then
                (case Repeat ''0'' (- 1 * reduced) of
                   None \<Rightarrow> None
                 | Some zeros \<Rightarrow> Some (sign @ trimmed @ zeros))
              else if int (length trimmed) \<le> reduced then
                (case Repeat ''0'' (reduced - int (length trimmed)) of
                   None \<Rightarrow> None
                 | Some zeros \<Rightarrow> Some (sign @ ''0.'' @ zeros @ trimmed))
              else
                (case slice_to trimmed (int (length trimmed) - reduced) of
                   None \<Rightarrow> None
                 | Some whole \<Rightarrow>
                     (case slice_from trimmed (int (length trimmed) - reduced) of
                        None \<Rightarrow> None
                      | Some frac \<Rightarrow> Some (sign @ whole @ ''.'' @ frac))))"
    unfolding Decimal_String_def split
    by (simp only: nz if_False option.case prod.case Let_def trim scale)
  have z: "(Value d = 0) = False"
    using assms by simp
  have sg: "(if Value d < 0 then ''-'' else []) = sign"
    by (simp add: sign_def)
  have dg: "nat_digits (nat \<bar>Value d\<bar>) = digits"
    by (simp add: digits_def)
  have tk: "take (length digits - trailing_zeros digits) digits = trimmed"
    by (simp add: trimmed_def k_def)
  have rd: "int (unat (Scale d)) - int (trailing_zeros digits) = reduced"
    by (simp add: reduced_def k_def)
  have spec: "toString_spec (unat (Scale d)) (Value d) =
    (if reduced \<le> 0 then sign @ trimmed @ replicate (nat (- reduced)) (CHR ''0'')
          else if int (length trimmed) \<le> reduced
          then sign @ ''0.'' @ replicate (nat reduced - length trimmed) (CHR ''0'') @ trimmed
          else sign @ take (length trimmed - nat reduced) trimmed @ ''.''
                 @ drop (length trimmed - nat reduced) trimmed)"
    unfolding toString_spec_def
    by (simp only: z if_False Let_def sg dg tk rd)
  consider "reduced \<le> 0" | "0 < reduced" "int (length trimmed) \<le> reduced"
    | "0 < reduced" "reduced < int (length trimmed)"
    by linarith
  then show ?thesis
  proof cases
    case 1
    then have "Repeat ''0'' (- 1 * reduced) = Some (replicate (nat (- reduced)) (CHR ''0''))"
      by (simp add: Repeat_zero)
    with 1 show ?thesis
      unfolding code spec by simp
  next
    case 2
    then have "Repeat ''0'' (reduced - int (length trimmed))
        = Some (replicate (nat reduced - length trimmed) (CHR ''0''))"
      by (simp add: Repeat_zero nat_diff_distrib')
    with 2 show ?thesis
      unfolding code spec by simp
  next
    case 3
    then have n: "nat (int (length trimmed) - reduced) = length trimmed - nat reduced"
      by (simp add: nat_diff_distrib')
    from 3 have "slice_to trimmed (int (length trimmed) - reduced)
        = Some (take (length trimmed - nat reduced) trimmed)"
      and "slice_from trimmed (int (length trimmed) - reduced)
        = Some (drop (length trimmed - nat reduced) trimmed)"
      by (simp_all add: slice_to_def slice_from_def n)
    with 3 show ?thesis
      unfolding code spec by simp
  qed
qed

lemma Decimal_String_refines:
  "Decimal_String d = Some (toString_spec (unat (Scale d)) (Value d))"
proof (cases "Value d = 0")
  case True
  then show ?thesis
    by (simp add: Decimal_String_def Sign_def toString_spec_def)
next
  case False
  then show ?thesis
    by (rule Decimal_String_nonzero)
qed

text \<open>What the text denotes.\<close>

lemma of_char_digit_char:
  assumes "m < 10"
  shows "(of_char (digit_char m) :: nat) = 48 + m"
  using assms by (simp add: digit_char_def)

lemma is_digit_digit_char: "m < 10 \<Longrightarrow> is_digit (digit_char m)"
  by (simp add: is_digit_def of_char_digit_char)

lemma digit_value_digit_char: "m < 10 \<Longrightarrow> digit_value (digit_char m) = m"
  by (simp add: digit_value_def of_char_digit_char)

lemma is_digit_simps:
  "\<not> is_digit (CHR ''.'')" "\<not> is_digit (CHR ''-'')" "is_digit (CHR ''0'')"
  by (simp_all add: is_digit_def)

lemma digit_value_zero: "digit_value (CHR ''0'') = 0"
  by (simp add: digit_value_def)

lemma digit_char_zero_iff:
  assumes "m < 10"
  shows "digit_char m = CHR ''0'' \<longleftrightarrow> m = 0"
proof
  assume "digit_char m = CHR ''0''"
  then have "digit_value (digit_char m) = 0"
    by (simp add: digit_value_zero)
  with assms show "m = 0"
    by (simp add: digit_value_digit_char)
next
  assume "m = 0"
  then show "digit_char m = CHR ''0''"
    by (simp add: digit_chars)
qed

lemma foldl_digits:
  "foldl (\<lambda>acc c. acc * 10 + digit_value c) a s = a * 10 ^ length s + digits_value s"
proof (induction s arbitrary: a)
  case Nil
  show ?case by (simp add: digits_value_def)
next
  case (Cons c s)
  let ?f = "\<lambda>acc c. acc * 10 + digit_value c"
  have "foldl ?f a (c # s) = (a * 10 + digit_value c) * 10 ^ length s + digits_value s"
    using Cons.IH [of "a * 10 + digit_value c"] by simp
  moreover have "digits_value (c # s) = digit_value c * 10 ^ length s + digits_value s"
    using Cons.IH [of "digit_value c"] by (simp add: digits_value_def)
  ultimately show ?case
    by (simp add: algebra_simps)
qed

lemma digits_value_append:
  "digits_value (xs @ ys) = digits_value xs * 10 ^ length ys + digits_value ys"
  using foldl_digits [of "digits_value xs" ys] by (simp add: digits_value_def)

lemma digits_value_single: "digits_value [c] = digit_value c"
  by (simp add: digits_value_def)

lemma digits_value_zeros: "digits_value (replicate k (CHR ''0'')) = 0"
proof (induction k)
  case 0
  show ?case by (simp add: digits_value_def)
next
  case (Suc k)
  have "replicate (Suc k) (CHR ''0'') = replicate k (CHR ''0'') @ ''0''"
    by (simp add: replicate_append_same)
  then show ?case
    using Suc.IH by (simp only: digits_value_append digits_value_single digit_value_zero)
qed

lemma digits_value_nat_digits: "digits_value (nat_digits n) = n"
proof (induction n rule: nat_digits.induct)
  case (1 n)
  show ?case
  proof (cases "n < 10")
    case True
    then show ?thesis
      by (simp add: nat_digits_small digits_value_single digit_value_digit_char)
  next
    case False
    then have "digits_value (nat_digits (n div 10)) = n div 10"
      by (rule "1.IH")
    with False show ?thesis
      by (simp add: nat_digits_large digits_value_append digits_value_single
          digit_value_digit_char)
  qed
qed

lemma is_digit_nat_digits: "list_all is_digit (nat_digits n)"
proof (induction n rule: nat_digits.induct)
  case (1 n)
  show ?case
  proof (cases "n < 10")
    case True
    then show ?thesis
      by (simp add: nat_digits_small is_digit_digit_char)
  next
    case False
    then have "list_all is_digit (nat_digits (n div 10))"
      by (rule "1.IH")
    with False show ?thesis
      by (simp add: nat_digits_large is_digit_digit_char)
  qed
qed

lemma hd_nat_digits:
  assumes "0 < n"
  shows "hd (nat_digits n) \<noteq> CHR ''0''"
  using assms
proof (induction n rule: nat_digits.induct)
  case (1 n)
  show ?case
  proof (cases "n < 10")
    case True
    with "1.prems" show ?thesis
      by (simp add: nat_digits_small digit_char_zero_iff)
  next
    case False
    then have "0 < n div 10" by simp
    with False have "hd (nat_digits (n div 10)) \<noteq> CHR ''0''"
      by (rule "1.IH")
    with False show ?thesis
      by (simp add: nat_digits_large nat_digits_not_Nil)
  qed
qed


lemma trailing_zeros_split:
  "s = take (length s - trailing_zeros s) s @ replicate (trailing_zeros s) (CHR ''0'')"
proof -
  let ?P = "\<lambda>c. c = CHR ''0''"
  have "\<forall>c \<in> set (takeWhile ?P (rev s)). c = CHR ''0''"
    by (auto dest: set_takeWhileD)
  then have "takeWhile ?P (rev s) = replicate (trailing_zeros s) (CHR ''0'')"
    unfolding trailing_zeros_def by (simp add: replicate_length_same)
  moreover have "rev s = takeWhile ?P (rev s) @ dropWhile ?P (rev s)"
    by simp
  ultimately have "rev s = replicate (trailing_zeros s) (CHR ''0'') @ dropWhile ?P (rev s)"
    by simp
  then have "rev (rev s) = rev (replicate (trailing_zeros s) (CHR ''0'') @ dropWhile ?P (rev s))"
    by (rule arg_cong)
  then have "s = rev (dropWhile ?P (rev s)) @ replicate (trailing_zeros s) (CHR ''0'')"
    by simp
  then show ?thesis
    using TrimRightFunc_zero [of s] by (simp add: TrimRightFunc_def)
qed

lemma last_trimmed:
  assumes "take (length s - trailing_zeros s) s \<noteq> []"
  shows "last (take (length s - trailing_zeros s) s) \<noteq> CHR ''0''"
proof -
  let ?P = "\<lambda>c. c = CHR ''0''"
  have eq: "take (length s - trailing_zeros s) s = rev (dropWhile ?P (rev s))"
    using TrimRightFunc_zero [of s] by (simp add: TrimRightFunc_def)
  with assms have ne: "dropWhile ?P (rev s) \<noteq> []"
    by simp
  then have "\<not> ?P (hd (dropWhile ?P (rev s)))"
    by (rule hd_dropWhile)
  with ne show ?thesis
    unfolding eq by (simp add: last_rev)
qed

lemma not_point_if_digit: "is_digit c \<Longrightarrow> c \<noteq> CHR ''.''"
  using is_digit_simps(1) by blast

lemma not_minus_if_digit: "is_digit c \<Longrightarrow> c \<noteq> CHR ''-''"
  using is_digit_simps(2) by blast

lemma takeWhile_digits:
  assumes "list_all is_digit xs"
  shows "takeWhile (\<lambda>c. c \<noteq> CHR ''.'') (xs @ ys) = xs @ takeWhile (\<lambda>c. c \<noteq> CHR ''.'') ys"
  using assms by (intro takeWhile_append2) (simp add: list_all_iff not_point_if_digit)

lemma dropWhile_digits:
  assumes "list_all is_digit xs"
  shows "dropWhile (\<lambda>c. c \<noteq> CHR ''.'') (xs @ ys) = dropWhile (\<lambda>c. c \<noteq> CHR ''.'') ys"
  using assms by (intro dropWhile_append2) (simp add: list_all_iff not_point_if_digit)

lemma text_parts_plain:
  assumes "list_all is_digit b"
  shows "takeWhile (\<lambda>c. c \<noteq> CHR ''.'') b = b"
    and "drop 1 (dropWhile (\<lambda>c. c \<noteq> CHR ''.'') b) = []"
proof -
  have all: "\<forall>c \<in> set b. c \<noteq> CHR ''.''"
    using assms by (simp add: list_all_iff not_point_if_digit)
  then show "takeWhile (\<lambda>c. c \<noteq> CHR ''.'') b = b"
    by simp
  from all have dw: "dropWhile (\<lambda>c. c \<noteq> CHR ''.'') b = []"
    by simp
  show "drop 1 (dropWhile (\<lambda>c. c \<noteq> CHR ''.'') b) = []"
    unfolding dw by simp
qed

lemma text_parts_point:
  assumes "list_all is_digit w"
  shows "takeWhile (\<lambda>c. c \<noteq> CHR ''.'') (w @ ''.'' @ f) = w"
    and "drop 1 (dropWhile (\<lambda>c. c \<noteq> CHR ''.'') (w @ ''.'' @ f)) = f"
  using takeWhile_digits [OF assms, of "''.'' @ f"] dropWhile_digits [OF assms, of "''.'' @ f"]
  by simp_all

lemma text_sign:
  assumes "b \<noteq> []" "is_digit (hd b)"
  shows "text_negative (''-'' @ b)" "text_body (''-'' @ b) = b"
    "\<not> text_negative b" "text_body b = b"
proof -
  show neg: "text_negative (''-'' @ b)"
    by (simp add: text_negative_def)
  then show "text_body (''-'' @ b) = b"
    by (simp add: text_body_def)
  from assms have "take 1 b = [hd b]" "hd b \<noteq> CHR ''-''"
    by (simp_all add: take_Suc not_minus_if_digit)
  then show pos: "\<not> text_negative b"
    by (simp add: text_negative_def)
  then show "text_body b = b"
    by (simp add: text_body_def)
qed


lemma is_digit_zeros: "list_all is_digit (replicate j (CHR ''0''))"
  by (simp add: list_all_iff is_digit_simps)

lemma text_of_body:
  assumes "b \<noteq> []" "is_digit (hd b)"
    and "t = (if neg then ''-'' else []) @ b"
  shows "text_negative t = neg"
    and "text_whole t = takeWhile (\<lambda>c. c \<noteq> CHR ''.'') b"
    and "text_fraction t = drop 1 (dropWhile (\<lambda>c. c \<noteq> CHR ''.'') b)"
  using text_sign [OF assms(1,2)] assms(3)
  by (cases neg; simp add: text_whole_def text_fraction_def)+

lemma nat_digits_trimmed:
  assumes "0 < n"
  defines "digits \<equiv> nat_digits n"
  defines "trimmed \<equiv> take (length digits - trailing_zeros digits) digits"
  shows "trimmed \<noteq> []" "list_all is_digit trimmed" "is_digit (hd trimmed)"
    "last trimmed \<noteq> CHR ''0''"
    "digits_value trimmed * 10 ^ trailing_zeros digits = n"
proof -
  let ?k = "trailing_zeros digits"
  have dec: "digits = trimmed @ replicate ?k (CHR ''0'')"
    unfolding trimmed_def by (rule trailing_zeros_split)
  have dall: "list_all is_digit digits"
    unfolding digits_def by (rule is_digit_nat_digits)
  have dne: "digits \<noteq> []"
    unfolding digits_def by (rule nat_digits_not_Nil)
  have dhd: "hd digits \<noteq> CHR ''0''"
    unfolding digits_def using assms(1) by (rule hd_nat_digits)
  show tne: "trimmed \<noteq> []"
  proof
    assume "trimmed = []"
    with dec have d: "digits = replicate ?k (CHR ''0'')"
      by simp
    with dne have "0 < ?k"
      by (cases "?k") simp_all
    then have "hd (replicate ?k (CHR ''0'')) = CHR ''0''"
      by (cases "?k") simp_all
    with d dhd show False
      by simp
  qed
  from dall dec have "list_all is_digit (trimmed @ replicate ?k (CHR ''0''))"
    by simp
  then show tall: "list_all is_digit trimmed"
    by simp
  with tne show "is_digit (hd trimmed)"
    by (cases trimmed) simp_all
  from tne show "last trimmed \<noteq> CHR ''0''"
    unfolding trimmed_def by (rule last_trimmed)
  have "digits_value digits = n"
    unfolding digits_def by (rule digits_value_nat_digits)
  then have "digits_value (trimmed @ replicate ?k (CHR ''0'')) = n"
    using dec by simp
  then show "digits_value trimmed * 10 ^ ?k = n"
    by (simp add: digits_value_append digits_value_zeros)
qed


lemma toString_spec_reads_back:
  fixes scale :: nat and m :: int
  defines "t \<equiv> toString_spec scale m"
  shows "text_negative t = (m < 0)
     \<and> text_whole t \<noteq> []
     \<and> list_all is_digit (text_whole t @ text_fraction t)
     \<and> int (digits_value (text_whole t @ text_fraction t)) * 10 ^ scale
         = \<bar>m\<bar> * 10 ^ length (text_fraction t)
     \<and> (text_fraction t = [] \<or> last (text_fraction t) \<noteq> CHR ''0'')"
proof (cases "m = 0")
  case True
  then have "t = ''0''"
    by (simp add: t_def toString_spec_def)
  then show ?thesis
    using True
    by (simp add: text_negative_def text_body_def text_whole_def text_fraction_def
        is_digit_simps digits_value_single digit_value_zero)
next
  case False
  define n where "n = nat \<bar>m\<bar>"
  define digits where "digits = nat_digits n"
  define k where "k = trailing_zeros digits"
  define trimmed where "trimmed = take (length digits - k) digits"
  define reduced where "reduced = int scale - int k"
  define len where "len = length trimmed"
  have n: "0 < n" "\<bar>m\<bar> = int n"
    using False by (simp_all add: n_def)
  note tr = nat_digits_trimmed [OF n(1), folded digits_def, folded k_def, folded trimmed_def]
  have z: "(m = 0) = False"
    using False by simp
  have dg: "nat_digits (nat \<bar>m\<bar>) = digits"
    by (simp add: digits_def n_def)
  have tk: "take (length digits - trailing_zeros digits) digits = trimmed"
    by (simp add: trimmed_def k_def)
  have rd: "int scale - int (trailing_zeros digits) = reduced"
    by (simp add: reduced_def k_def)
  have spec: "t =
    (if reduced \<le> 0
     then (if m < 0 then ''-'' else []) @ trimmed @ replicate (nat (- reduced)) (CHR ''0'')
     else if int len \<le> reduced
     then (if m < 0 then ''-'' else []) @ ''0.'' @ replicate (nat reduced - len) (CHR ''0'') @ trimmed
     else (if m < 0 then ''-'' else []) @ take (len - nat reduced) trimmed @ ''.''
                 @ drop (len - nat reduced) trimmed)"
    unfolding t_def toString_spec_def len_def
    by (simp only: z if_False Let_def dg tk rd)
  have val: "int (digits_value trimmed) * 10 ^ k = int n"
  proof -
    have "int (digits_value trimmed * 10 ^ k) = int n"
      by (simp only: tr(5))
    then show ?thesis
      by simp
  qed
  consider (integer) "reduced \<le> 0" | (small) "0 < reduced" "int len \<le> reduced"
    | (point) "0 < reduced" "reduced < int len"
    by linarith
  then show ?thesis
  proof cases
    case integer
    define j where "j = nat (- reduced)"
    define b where "b = trimmed @ replicate j (CHR ''0'')"
    have t: "t = (if m < 0 then ''-'' else []) @ b"
      using integer by (simp add: spec b_def j_def)
    have b: "b \<noteq> []" "is_digit (hd b)" "list_all is_digit b"
      using tr(1,2,3) by (simp_all add: b_def is_digit_zeros)
    note parts = text_of_body [OF b(1,2) t, unfolded text_parts_plain [OF b(3)]]
    have jk: "j + scale = k"
      using integer by (simp add: j_def reduced_def)
    have "int (digits_value b) * 10 ^ scale = int (digits_value trimmed) * 10 ^ (j + scale)"
      by (simp add: b_def digits_value_append digits_value_zeros power_add)
    also have "\<dots> = \<bar>m\<bar>"
      unfolding jk n(2) by (rule val)
    finally have "int (digits_value b) * 10 ^ scale = \<bar>m\<bar>" .
    with b show ?thesis
      by (simp only: parts) simp
  next
    case small
    define j where "j = nat reduced - len"
    define f where "f = replicate j (CHR ''0'') @ trimmed"
    define b where "b = ''0'' @ ''.'' @ f"
    have t: "t = (if m < 0 then ''-'' else []) @ b"
      using small by (simp add: spec b_def f_def j_def)
    have w: "list_all is_digit ''0''"
      by (simp add: is_digit_simps)
    have b: "b \<noteq> []" "is_digit (hd b)"
      by (simp_all add: b_def is_digit_simps)
    note parts = text_of_body [OF b t, unfolded b_def text_parts_point [OF w]]
    have lf: "length f + k = scale"
      using small by (simp add: f_def j_def len_def reduced_def)
    have "digits_value (''0'' @ f) = digits_value (replicate (Suc j) (CHR ''0'') @ trimmed)"
      by (simp add: f_def)
    also have "\<dots> = digits_value trimmed"
      by (simp only: digits_value_append digits_value_zeros mult_zero_left add_0)
    finally have "int (digits_value (''0'' @ f)) * 10 ^ scale
        = int (digits_value trimmed) * 10 ^ (length f + k)"
      by (simp only: lf)
    also have "\<dots> = \<bar>m\<bar> * 10 ^ length f"
      unfolding n(2) val [symmetric] by (simp add: power_add)
    finally have exact: "int (digits_value (''0'' @ f)) * 10 ^ scale = \<bar>m\<bar> * 10 ^ length f" .
    have "last f = last trimmed"
      using tr(1) by (simp add: f_def)
    with tr(4) have "last f \<noteq> CHR ''0''"
      by simp
    moreover have "list_all is_digit (''0'' @ f)"
      using tr(2) by (simp add: f_def is_digit_simps is_digit_zeros)
    ultimately show ?thesis
      using exact by (simp only: parts) simp
  next
    case point
    define j where "j = len - nat reduced"
    define w where "w = take j trimmed"
    define f where "f = drop j trimmed"
    define b where "b = w @ ''.'' @ f"
    have j: "0 < j" "j < len"
      using point by (simp_all add: j_def)
    have t: "t = (if m < 0 then ''-'' else []) @ b"
      using point by (simp add: spec b_def w_def f_def j_def)
    have wf: "w @ f = trimmed"
      by (simp add: w_def f_def)
    have wne: "w \<noteq> []"
      using j tr(1) by (simp add: w_def len_def)
    have fne: "f \<noteq> []"
      using j by (simp add: f_def len_def)
    have w: "list_all is_digit w"
      using tr(2) wf by (metis list_all_append)
    have "hd b = hd trimmed"
      using wne wf by (metis b_def hd_append2)
    with tr(3) wne have b: "b \<noteq> []" "is_digit (hd b)"
      by (simp_all add: b_def)
    note parts = text_of_body [OF b t, unfolded b_def text_parts_point [OF w]]
    have lf: "length f + k = scale"
      using point by (simp add: f_def j_def len_def reduced_def)
    have "int (digits_value (w @ f)) * 10 ^ scale
        = int (digits_value trimmed) * 10 ^ (length f + k)"
      by (simp only: lf wf)
    also have "\<dots> = \<bar>m\<bar> * 10 ^ length f"
      unfolding n(2) val [symmetric] by (simp add: power_add)
    finally have exact: "int (digits_value (w @ f)) * 10 ^ scale = \<bar>m\<bar> * 10 ^ length f" .
    have "last f = last trimmed"
      using fne wf by (metis last_appendR)
    with tr(4) have "last f \<noteq> CHR ''0''"
      by simp
    moreover have "list_all is_digit (w @ f)"
      using tr(2) by (simp only: wf)
    ultimately show ?thesis
      using exact wne by (simp only: parts) simp
  qed
qed

section \<open>Claims about the 128-bit integer conversions\<close>

text \<open>
  C1. For every \<open>duckdb_hugeint\<close> value \<open>v\<close> (any signed 64-bit upper word and any
  unsigned 64-bit lower word), converting \<open>v\<close> with \<open>hugeIntToNative\<close> and back with
  \<open>hugeIntFromNative\<close> succeeds and returns \<open>v\<close>, both words unchanged.
\<close>

theorem hugeInt_round_trip:
  "hugeIntFromNative (hugeIntToNative v) = Inr v
   \<and> hugeIntFromNative (hugeIntToNative \<lparr>lower = l, upper = u\<rparr>) = Inr \<lparr>lower = l, upper = u\<rparr>"
proof -
  have inverse: "hugeIntFromNative (hugeIntToNative x) = Inr x" for x
  proof -
    have quotient: "hugeIntToNative x div 2 ^ 64 = sint (upper x)"
      and remainder: "hugeIntToNative x mod 2 ^ 64 = uint (lower x)"
      by (rule hugeIntToNative_div_mod)+
    have fits: "IsInt64 (sint (upper x))"
      by (rule IsInt64_sint)
    have "Int_Uint64 (uint (lower x)) = lower x"
      by (simp add: Int_Uint64_def)
    moreover have "Int_Int64 (sint (upper x)) = upper x"
      by (simp add: Int_Int64_eq)
    ultimately show ?thesis
      unfolding hugeIntFromNative_eq quotient remainder using fits by simp
  qed
  show ?thesis
    by (simp only: inverse)
qed

text \<open>
  C3. \<open>hugeIntFromNative i\<close> divides \<open>i\<close> by \<open>2^64\<close> with floor quotient and
  non-negative remainder. When it succeeds, the lower word is \<open>i mod 2^64\<close>, in
  \<open>[0, 2^64)\<close>, the upper word read as signed is the floor quotient \<open>i div 2^64\<close>, and
  \<open>i\<close> lies in \<open>[-2^127, 2^127 - 1]\<close>. When it fails, it returns the error (no panic),
  the quotient does not fit a signed 64-bit word and \<open>i\<close> lies outside that range.
\<close>

theorem hugeIntFromNative_floor_quotient:
  "(case hugeIntFromNative i of
      Inl e \<Rightarrow>
        e = Errorf (''big.Int('' @ Int_String i @ '') is too big for HUGEINT'')
        \<and> \<not> IsInt64 (i div 2 ^ 64)
        \<and> (i < - (2 ^ 127) \<or> 2 ^ 127 - 1 < i)
    | Inr h \<Rightarrow>
        IsInt64 (i div 2 ^ 64)
        \<and> - (2 ^ 127) \<le> i \<and> i \<le> 2 ^ 127 - 1
        \<and> sint (upper h) = i div 2 ^ 64
        \<and> uint (lower h) = i mod 2 ^ 64
        \<and> 0 \<le> uint (lower h) \<and> uint (lower h) < 2 ^ 64
        \<and> i = sint (upper h) * 2 ^ 64 + uint (lower h))"
proof (cases "IsInt64 (i div 2 ^ 64)")
  case True
  from hugeIntFromNative_in_range [OF True] obtain h where
    h: "hugeIntFromNative i = Inr h" "hugeIntToNative h = i"
       "sint (upper h) = i div 2 ^ 64" "uint (lower h) = i mod 2 ^ 64"
    by blast
  have rng: "- (2 ^ 127) \<le> i \<and> i \<le> 2 ^ 127 - 1"
    using True by (simp only: IsInt64_div_iff)
  have val: "i = sint (upper h) * 2 ^ 64 + uint (lower h)"
    using h(2) by (simp only: hugeIntToNative_eq)
  have lo: "0 \<le> uint (lower h)" "uint (lower h) < 2 ^ 64"
    using uint_lt2p [of "lower h"] by simp_all
  show ?thesis
    unfolding h(1) sum.case
    using True rng [THEN conjunct1] rng [THEN conjunct2] h(3,4) lo val
    by (intro conjI)
next
  case False
  then have "\<not> (- (2 ^ 127) \<le> i \<and> i \<le> 2 ^ 127 - 1)"
    using IsInt64_div_iff [of i] by blast
  then have "i < - (2 ^ 127) \<or> 2 ^ 127 - 1 < i"
    by (simp only: de_Morgan_conj not_le)
  with False show ?thesis
    by (simp add: hugeIntFromNative_eq)
qed

text \<open>
  C5. \<open>hugeIntToNative\<close> returns \<open>upper * 2^64 + lower\<close>, with \<open>upper\<close> read as signed
  and \<open>lower\<close> as unsigned. This is the signed value of the 128-bit two's-complement
  word whose high half is \<open>upper\<close> and whose low half is \<open>lower\<close>. In particular
  \<open>upper = -1\<close>, \<open>lower = 2^64 - 1\<close> converts to \<open>-1\<close>.
\<close>

theorem hugeIntToNative_twos_complement:
  "hugeIntToNative hi = sint (upper hi) * 2 ^ 64 + uint (lower hi)
   \<and> hugeIntToNative hi = sint (word_cat (upper hi) (lower hi) :: 128 word)
   \<and> hugeIntToNative \<lparr>lower = 2 ^ 64 - 1, upper = - 1\<rparr> = - 1"
proof -
  have "hugeIntToNative \<lparr>lower = 2 ^ 64 - 1, upper = - 1\<rparr> = - 1"
    by (simp add: hugeIntToNative_eq)
  then show ?thesis
    by (simp only: sint_word_cat_64 hugeIntToNative_eq)
qed

text \<open>
  C10. For every integer \<open>i\<close> with \<open>-2^127 \<le> i \<le> 2^127 - 1\<close>,
  \<open>hugeIntFromNative i\<close> succeeds and \<open>hugeIntToNative\<close> of its result is \<open>i\<close>.
  Together with the other direction, \<open>hugeIntToNative\<close> is a bijection from all
  \<open>duckdb_hugeint\<close> values onto that range, with \<open>hugeIntFromNative\<close> as its inverse.
\<close>

theorem hugeInt_inverse_round_trip:
  "(\<forall>i \<in> {- (2 ^ 127) .. 2 ^ 127 - 1}.
      \<exists>h. hugeIntFromNative i = Inr h \<and> hugeIntToNative h = i)
   \<and> (\<forall>v. hugeIntFromNative (hugeIntToNative v) = Inr v)
   \<and> bij_betw hugeIntToNative UNIV {- (2 ^ 127) .. 2 ^ 127 - 1}"
proof (intro conjI ballI allI)
  fix i :: int
  assume "i \<in> {- (2 ^ 127) .. 2 ^ 127 - 1}"
  then have "IsInt64 (i div 2 ^ 64)"
    by (simp only: IsInt64_div_iff atLeastAtMost_iff)
  from hugeIntFromNative_in_range [OF this]
  show "\<exists>h. hugeIntFromNative i = Inr h \<and> hugeIntToNative h = i"
    by blast
next
  fix v
  show "hugeIntFromNative (hugeIntToNative v) = Inr v"
    by (rule hugeIntFromNative_hugeIntToNative)
next
  show "bij_betw hugeIntToNative UNIV {- (2 ^ 127) .. 2 ^ 127 - 1}"
    unfolding bij_betw_def
  proof
    show "inj hugeIntToNative"
    proof (rule injI)
      fix a b
      assume "hugeIntToNative a = hugeIntToNative b"
      then have "hugeIntFromNative (hugeIntToNative a) = hugeIntFromNative (hugeIntToNative b)"
        by simp
      then show "a = b"
        by (simp only: hugeIntFromNative_hugeIntToNative sum.inject)
    qed
  next
    show "range hugeIntToNative = {- (2 ^ 127) .. 2 ^ 127 - 1}"
    proof (rule set_eqI, rule iffI)
      fix i
      assume "i \<in> range hugeIntToNative"
      then obtain v where "i = hugeIntToNative v" by blast
      then show "i \<in> {- (2 ^ 127) .. 2 ^ 127 - 1}"
        using hugeint_value_range [of "upper v" "lower v"]
        by (simp add: hugeIntToNative_eq)
    next
      fix i :: int
      assume "i \<in> {- (2 ^ 127) .. 2 ^ 127 - 1}"
      then have "IsInt64 (i div 2 ^ 64)"
        by (simp only: IsInt64_div_iff atLeastAtMost_iff)
      from hugeIntFromNative_in_range [OF this]
      obtain h where "hugeIntToNative h = i" by blast
      then show "i \<in> range hugeIntToNative" by blast
    qed
  qed
qed

theorem hugeInt_inverse_round_trip_witness:
  "(- 1 :: int) \<in> {- (2 ^ 127) .. 2 ^ 127 - 1}
   \<and> (\<exists>h. hugeIntFromNative (- 1) = Inr h \<and> hugeIntToNative h = - 1)"
proof -
  have m: "(- 1 :: int) \<in> {- (2 ^ 127) .. 2 ^ 127 - 1}" by simp
  from hugeInt_inverse_round_trip have
    "\<forall>i \<in> {- (2 ^ 127) .. 2 ^ 127 - 1}. \<exists>h. hugeIntFromNative i = Inr h \<and> hugeIntToNative h = i"
    by (rule conjunct1)
  from this m have "\<exists>h. hugeIntFromNative (- 1) = Inr h \<and> hugeIntToNative h = - 1"
    by (rule bspec)
  with m show ?thesis by (rule conjI)
qed

section \<open>Claims about the UUID codec\<close>

text \<open>
  C2. For every 16-byte UUID \<open>u\<close>, \<open>uuidToHugeInt u\<close> returns a 128-bit integer
  and \<open>hugeIntToUUID\<close> of it returns exactly the 16 bytes of \<open>u\<close>.
\<close>

theorem uuid_round_trip:
  assumes "length u = uuid_length"
  shows "\<exists>hi. uuidToHugeInt u = Some hi \<and> hugeIntToUUID hi = Some u"
proof -
  have len: "length (take 8 u) = 8" "length (drop 8 u) = 8"
    using assms by (simp_all add: uuid_length_def)
  let ?z = "replicate uuid_length (0 :: byte)"
  have lz: "length (take 8 ?z) = 8"
    by (simp add: uuid_length_def)
  from BigEndian_Put_Get [OF len(1) lz] obtain wu where
    wu: "BigEndian_Uint64 (take 8 u) = Some wu" "BigEndian_PutUint64 (take 8 ?z) wu = Some (take 8 u)"
    by blast
  have lz2: "length (drop 8 (take 8 u @ drop 8 ?z)) = 8"
    using len by (simp add: uuid_length_def)
  from BigEndian_Put_Get [OF len(2) lz2] obtain wl where
    wl: "BigEndian_Uint64 (drop 8 u) = Some wl"
      "BigEndian_PutUint64 (drop 8 (take 8 u @ drop 8 ?z)) wl = Some (drop 8 u)"
    by blast
  have "uuidToHugeInt u = Some \<lparr>lower = wl, upper = wu XOR push_bit 63 1\<rparr>"
    by (simp add: uuidToHugeInt_def wu(1) wl(1))
  moreover have "hugeIntToUUID \<lparr>lower = wl, upper = wu XOR push_bit 63 1\<rparr> = Some u"
    unfolding hugeIntToUUID_def Let_def duckdb_hugeint.simps flip_flip wu(2) option.case wl(2)
    using len by simp
  ultimately show ?thesis by blast
qed

theorem uuid_round_trip_witness:
  "\<exists>hi. uuidToHugeInt [0x80, 0, 0, 0, 0, 0, 0, 0, 0, 0, 0x20, 0, 0, 0, 0, 0] = Some hi
     \<and> hugeIntToUUID hi = Some [0x80, 0, 0, 0, 0, 0, 0, 0, 0, 0, 0x20, 0, 0, 0, 0, 0]"
proof -
  have "length [0x80, 0, 0, 0, 0, 0, 0, 0, 0, 0, 0x20, 0, 0, 0, 0, 0 :: byte] = uuid_length"
    by (simp add: uuid_length_def)
  then show ?thesis
    by (rule uuid_round_trip)
qed

text \<open>
  C6. The flip of the sign bit in \<open>uuidToHugeInt\<close> preserves the order: for 16-byte
  UUIDs \<open>u1\<close> and \<open>u2\<close>, \<open>u1\<close> is lexicographically less than \<open>u2\<close> (bytes compared
  as unsigned numbers, first byte first) if and only if the signed 128-bit integer of
  \<open>uuidToHugeInt u1\<close> is less than that of \<open>uuidToHugeInt u2\<close>. The signed integer is
  given both as \<open>hugeIntToNative\<close> and as the signed value of the 128-bit word.
\<close>

theorem uuidToHugeInt_order_preserving:
  assumes "length u1 = uuid_length" and "length u2 = uuid_length"
  shows "\<exists>h1 h2. uuidToHugeInt u1 = Some h1 \<and> uuidToHugeInt u2 = Some h2
     \<and> (u1 < u2 \<longleftrightarrow> hugeIntToNative h1 < hugeIntToNative h2)
     \<and> (u1 < u2 \<longleftrightarrow>
          sint (word_cat (upper h1) (lower h1) :: 128 word)
            < sint (word_cat (upper h2) (lower h2) :: 128 word))"
proof -
  from hugeIntToNative_uuidToHugeInt [OF assms(1)] obtain h1 where
    h1: "uuidToHugeInt u1 = Some h1" "hugeIntToNative h1 = int (big_endian_value u1) - 2 ^ 127"
    by blast
  from hugeIntToNative_uuidToHugeInt [OF assms(2)] obtain h2 where
    h2: "uuidToHugeInt u2 = Some h2" "hugeIntToNative h2 = int (big_endian_value u2) - 2 ^ 127"
    by blast
  have "length u1 = length u2"
    using assms by simp
  then have "u1 < u2 \<longleftrightarrow> big_endian_value u1 < big_endian_value u2"
    by (rule lexicographic_iff_value)
  also have "\<dots> \<longleftrightarrow> hugeIntToNative h1 < hugeIntToNative h2"
    unfolding h1(2) h2(2) by simp
  finally have native: "u1 < u2 \<longleftrightarrow> hugeIntToNative h1 < hugeIntToNative h2" .
  then have "u1 < u2 \<longleftrightarrow>
      sint (word_cat (upper h1) (lower h1) :: 128 word)
        < sint (word_cat (upper h2) (lower h2) :: 128 word)"
    by (simp only: sint_word_cat_64 hugeIntToNative_eq)
  with h1(1) h2(1) native show ?thesis
    by blast
qed

theorem uuidToHugeInt_order_preserving_witness:
  "\<exists>h1 h2.
     uuidToHugeInt [0x7F, 0xFF, 0, 0, 0, 0, 0, 0, 0, 0, 0, 0, 0, 0, 0, 1] = Some h1
     \<and> uuidToHugeInt [0x80, 0, 0, 0, 0, 0, 0, 0, 0, 0, 0x20, 0, 0, 0, 0, 0] = Some h2
     \<and> ([0x7F, 0xFF, 0, 0, 0, 0, 0, 0, 0, 0, 0, 0, 0, 0, 0, 1]
          < [0x80, 0, 0, 0, 0, 0, 0, 0, 0, 0, 0x20, 0, 0, 0, 0, 0 :: byte]
        \<longleftrightarrow> hugeIntToNative h1 < hugeIntToNative h2)
     \<and> ([0x7F, 0xFF, 0, 0, 0, 0, 0, 0, 0, 0, 0, 0, 0, 0, 0, 1]
          < [0x80, 0, 0, 0, 0, 0, 0, 0, 0, 0, 0x20, 0, 0, 0, 0, 0 :: byte]
        \<longleftrightarrow> sint (word_cat (upper h1) (lower h1) :: 128 word)
            < sint (word_cat (upper h2) (lower h2) :: 128 word))"
proof -
  have a: "length [0x7F, 0xFF, 0, 0, 0, 0, 0, 0, 0, 0, 0, 0, 0, 0, 0, 1 :: byte] = uuid_length"
    by (simp add: uuid_length_def)
  have b: "length [0x80, 0, 0, 0, 0, 0, 0, 0, 0, 0, 0x20, 0, 0, 0, 0, 0 :: byte] = uuid_length"
    by (simp add: uuid_length_def)
  from a b show ?thesis
    by (rule uuidToHugeInt_order_preserving)
qed

text \<open>
  C7. \<open>UUID.Scan\<close> on a UUID \<open>u\<close>: a byte slice of length 16 is copied into the
  UUID; a byte slice of any other length is handled as the string that has exactly
  these bytes as its characters, and that string is what \<open>uuid.Parse\<close> receives; a
  string is parsed, and the parsed UUID is stored when the parse succeeds, while the
  parse error is returned and \<open>u\<close> is kept when it fails; an argument of any other
  type gives an error and keeps \<open>u\<close>. So only a byte slice or a string can be
  accepted.
\<close>

theorem UUID_Scan_shapes:
  assumes "length u = uuid_length"
  shows "(length val = uuid_length \<longrightarrow> UUID_Scan Parse u (ByteSlice val) = (val, None))
    \<and> (length val \<noteq> uuid_length \<longrightarrow>
         UUID_Scan Parse u (ByteSlice val)
           = UUID_Scan Parse u (GoString (map (\<lambda>b. char_of (unat b)) val))
         \<and> (\<forall>parsed. Parse (map (\<lambda>b. char_of (unat b)) val) = Inr parsed \<longrightarrow>
               length parsed = uuid_length \<longrightarrow>
               UUID_Scan Parse u (ByteSlice val) = (parsed, None))
         \<and> (\<forall>err. Parse (map (\<lambda>b. char_of (unat b)) val) = Inl err \<longrightarrow>
               UUID_Scan Parse u (ByteSlice val) = (u, Some err)))
    \<and> string_of_bytes val = map (\<lambda>b. char_of (unat b)) val
    \<and> length (string_of_bytes val) = length val
    \<and> map (\<lambda>c. of_char c :: byte) (string_of_bytes val) = val
    \<and> (\<forall>parsed. Parse s = Inr parsed \<longrightarrow> length parsed = uuid_length \<longrightarrow>
         UUID_Scan Parse u (GoString s) = (parsed, None))
    \<and> (\<forall>err. Parse s = Inl err \<longrightarrow> UUID_Scan Parse u (GoString s) = (u, Some err))
    \<and> UUID_Scan Parse u (OtherType T) = (u, Some (Errorf (''invalid UUID value type: '' @ T)))
    \<and> (\<forall>v u'. UUID_Scan Parse u v = (u', None) \<longrightarrow>
         (\<exists>bytes. v = ByteSlice bytes) \<or> (\<exists>str. v = GoString str))"
proof (intro conjI allI impI)
  assume "length val = uuid_length"
  with assms show "UUID_Scan Parse u (ByteSlice val) = (val, None)"
    by (simp add: copy_def)
next
  assume "length val \<noteq> uuid_length"
  then show "UUID_Scan Parse u (ByteSlice val)
      = UUID_Scan Parse u (GoString (map (\<lambda>b. char_of (unat b)) val))"
    by (simp add: string_of_bytes_def)
next
  fix parsed
  assume "length val \<noteq> uuid_length"
    and "Parse (map (\<lambda>b. char_of (unat b)) val) = Inr parsed"
    and "length parsed = uuid_length"
  with assms show "UUID_Scan Parse u (ByteSlice val) = (parsed, None)"
    by (simp add: string_of_bytes_def copy_def)
next
  fix err
  assume "length val \<noteq> uuid_length"
    and "Parse (map (\<lambda>b. char_of (unat b)) val) = Inl err"
  then show "UUID_Scan Parse u (ByteSlice val) = (u, Some err)"
    by (simp add: string_of_bytes_def)
next
  show "string_of_bytes val = map (\<lambda>b. char_of (unat b)) val"
    by (simp add: string_of_bytes_def)
next
  show "length (string_of_bytes val) = length val"
    by (simp add: string_of_bytes_def)
next
  show "map (\<lambda>c. of_char c :: byte) (string_of_bytes val) = val"
    unfolding string_of_bytes_def by (rule bytes_of_string_of_bytes)
next
  fix parsed
  assume "Parse s = Inr parsed" "length parsed = uuid_length"
  with assms show "UUID_Scan Parse u (GoString s) = (parsed, None)"
    by (simp add: copy_def)
next
  fix err
  assume "Parse s = Inl err"
  then show "UUID_Scan Parse u (GoString s) = (u, Some err)"
    by simp
next
  show "UUID_Scan Parse u (OtherType T) = (u, Some (Errorf (''invalid UUID value type: '' @ T)))"
    by simp
next
  fix v u'
  assume "UUID_Scan Parse u v = (u', None)"
  then show "(\<exists>bytes. v = ByteSlice bytes) \<or> (\<exists>str. v = GoString str)"
    by (cases v) simp_all
qed

text \<open>
  The instance: the parser accepts only the text \<open>abc\<close>. The three bytes
  \<open>0x61, 0x62, 0x63\<close> are that text, so scanning them stores the parsed UUID; the
  bytes \<open>1, 2, 3\<close> are another text, and scanning them returns the parse error.
\<close>

theorem UUID_Scan_shapes_witness:
  "UUID_Scan (\<lambda>s. if s = ''abc'' then Inr (replicate 16 7) else Inl (Errorf ''invalid UUID length: 3''))
      (replicate 16 0) (ByteSlice (replicate 16 1)) = (replicate 16 1, None)
   \<and> string_of_bytes [0x61, 0x62, 0x63] = ''abc''
   \<and> UUID_Scan (\<lambda>s. if s = ''abc'' then Inr (replicate 16 7) else Inl (Errorf ''invalid UUID length: 3''))
      (replicate 16 0) (ByteSlice [0x61, 0x62, 0x63]) = (replicate 16 7, None)
   \<and> UUID_Scan (\<lambda>s. if s = ''abc'' then Inr (replicate 16 7) else Inl (Errorf ''invalid UUID length: 3''))
      (replicate 16 0) (ByteSlice [1, 2, 3])
     = (replicate 16 0, Some (Errorf ''invalid UUID length: 3''))
   \<and> UUID_Scan (\<lambda>s. if s = ''abc'' then Inr (replicate 16 7) else Inl (Errorf ''invalid UUID length: 3''))
      (replicate 16 0) (GoString ''abc'') = (replicate 16 7, None)
   \<and> UUID_Scan (\<lambda>s. if s = ''abc'' then Inr (replicate 16 7) else Inl (Errorf ''invalid UUID length: 3''))
      (replicate 16 0) (GoString ''bad'') = (replicate 16 0, Some (Errorf ''invalid UUID length: 3''))
   \<and> UUID_Scan (\<lambda>s. if s = ''abc'' then Inr (replicate 16 7) else Inl (Errorf ''invalid UUID length: 3''))
      (replicate 16 0) (OtherType ''int'')
     = (replicate 16 0, Some (Errorf (''invalid UUID value type: '' @ ''int'')))"
proof -
  let ?P = "\<lambda>s. if s = ''abc'' then Inr (replicate 16 (7 :: byte))
                 else Inl (Errorf ''invalid UUID length: 3'')"
  let ?u = "replicate 16 (0 :: byte)"
  have len: "length ?u = uuid_length"
    by (simp add: uuid_length_def)
  note A = UUID_Scan_shapes [OF len, where val = "replicate 16 1" and Parse = ?P
      and s = "''abc''" and T = "''int''"]
  note B = UUID_Scan_shapes [OF len, where val = "[0x61, 0x62, 0x63]" and Parse = ?P
      and s = "''bad''" and T = "''int''"]
  note C = UUID_Scan_shapes [OF len, where val = "[1, 2, 3]" and Parse = ?P
      and s = "''bad''" and T = "''int''"]
  have a: "length (replicate 16 (1 :: byte)) = uuid_length"
    by (simp add: uuid_length_def)
  have b: "length [0x61, 0x62, 0x63 :: byte] \<noteq> uuid_length"
    "length [1, 2, 3 :: byte] \<noteq> uuid_length"
    by (simp_all add: uuid_length_def)
  have abc: "map (\<lambda>b. char_of (unat b)) [0x61, 0x62, 0x63 :: byte] = ''abc''"
    by code_simp
  have other: "map (\<lambda>b. char_of (unat b)) [1, 2, 3 :: byte] \<noteq> ''abc''"
    by code_simp
  have c: "?P ''abc'' = Inr (replicate 16 7)" "length (replicate 16 (7 :: byte)) = uuid_length"
    by (simp_all add: uuid_length_def)
  have d: "?P ''bad'' = Inl (Errorf ''invalid UUID length: 3'')"
    by simp
  have pb: "?P (map (\<lambda>b. char_of (unat b)) [0x61, 0x62, 0x63 :: byte]) = Inr (replicate 16 7)"
    unfolding abc by simp
  have pc: "?P (map (\<lambda>b. char_of (unat b)) [1, 2, 3 :: byte])
      = Inl (Errorf ''invalid UUID length: 3'')"
    using other by simp
  from A a have r1: "UUID_Scan ?P ?u (ByteSlice (replicate 16 1)) = (replicate 16 1, None)"
    by blast
  from B abc have r2: "string_of_bytes [0x61, 0x62, 0x63] = ''abc''"
    by simp
  from B b(1) pb c(2) have r3: "UUID_Scan ?P ?u (ByteSlice [0x61, 0x62, 0x63])
      = (replicate 16 7, None)"
    by blast
  from C b(2) pc have r4: "UUID_Scan ?P ?u (ByteSlice [1, 2, 3])
      = (?u, Some (Errorf ''invalid UUID length: 3''))"
    by blast
  from A c have r5: "UUID_Scan ?P ?u (GoString ''abc'') = (replicate 16 7, None)"
    by blast
  from B d have r6: "UUID_Scan ?P ?u (GoString ''bad'')
      = (?u, Some (Errorf ''invalid UUID length: 3''))"
    by blast
  from A have r7: "UUID_Scan ?P ?u (OtherType ''int'')
      = (?u, Some (Errorf (''invalid UUID value type: '' @ ''int'')))"
    by blast
  from r1 r2 r3 r4 r5 r6 r7 show ?thesis
    by (intro conjI)
qed

text \<open>
  C9. Two \<open>Interval\<close> values are equal exactly when their \<open>Days\<close>, \<open>Months\<close> and
  \<open>Micros\<close> fields are equal; one day written as \<open>Days = 1\<close> differs from one day
  written as \<open>Micros = 86400000000\<close>.
\<close>

theorem Interval_equality_fieldwise:
  fixes a b :: Interval
  shows "(a = b \<longleftrightarrow> Days a = Days b \<and> Months a = Months b \<and> Micros a = Micros b)
    \<and> (\<lparr>Days = 1, Months = 0, Micros = 0\<rparr> :: Interval)
        \<noteq> \<lparr>Days = 0, Months = 0, Micros = 86400000000\<rparr>"
proof -
  have "a = b \<longleftrightarrow> Days a = Days b \<and> Months a = Months b \<and> Micros a = Micros b"
    by (cases a, cases b) simp
  then show ?thesis
    by simp
qed

section \<open>Claims about the decimal text\<close>

text \<open>
  C4. For every \<open>Decimal\<close>, \<open>String\<close> returns (it never panics) the text that the
  specification describes: \<open>0\<close> for a zero magnitude; otherwise the trailing zeros of
  the magnitude's digits are trimmed and the scale is reduced by their number; with a
  reduced scale \<open>\<le> 0\<close> the digits are followed by that many zeros and there is no
  point; with at most as many digits as the reduced scale the text is the sign,
  \<open>0.\<close>, the padding zeros and the digits; otherwise the point stands reduced-scale
  digits from the right. The text is exact and shortest: it has a \<open>-\<close> exactly for a
  negative magnitude, consists of digits around at most one point, with at least one
  digit before it, denotes the magnitude divided by \<open>10 ^ Scale\<close>, and its fraction
  does not end in a zero. The five cases of the specification follow.
\<close>

theorem Decimal_String_canonical:
  "(\<exists>t. Decimal_String d = Some t
      \<and> t = toString_spec (unat (Scale d)) (Value d)
      \<and> text_negative t = (Value d < 0)
      \<and> text_whole t \<noteq> []
      \<and> list_all is_digit (text_whole t @ text_fraction t)
      \<and> int (digits_value (text_whole t @ text_fraction t)) * 10 ^ unat (Scale d)
          = \<bar>Value d\<bar> * 10 ^ length (text_fraction t)
      \<and> (text_fraction t = [] \<or> last (text_fraction t) \<noteq> CHR ''0''))
   \<and> Decimal_String \<lparr>Width = w, Scale = s, Value = 0\<rparr> = Some ''0''
   \<and> Decimal_String \<lparr>Width = w, Scale = 2, Value = 123\<rparr> = Some ''1.23''
   \<and> Decimal_String \<lparr>Width = w, Scale = 0, Value = 12345\<rparr> = Some ''12345''
   \<and> Decimal_String \<lparr>Width = w, Scale = 3, Value = 100\<rparr> = Some ''0.1''
   \<and> Decimal_String \<lparr>Width = w, Scale = 2, Value = - 5\<rparr> = Some ''-0.05''"
proof (intro conjI)
  let ?t = "toString_spec (unat (Scale d)) (Value d)"
  have "Decimal_String d = Some ?t"
    by (rule Decimal_String_refines)
  with toString_spec_reads_back [of "unat (Scale d)" "Value d"]
  show "\<exists>t. Decimal_String d = Some t
      \<and> t = toString_spec (unat (Scale d)) (Value d)
      \<and> text_negative t = (Value d < 0)
      \<and> text_whole t \<noteq> []
      \<and> list_all is_digit (text_whole t @ text_fraction t)
      \<and> int (digits_value (text_whole t @ text_fraction t)) * 10 ^ unat (Scale d)
          = \<bar>Value d\<bar> * 10 ^ length (text_fraction t)
      \<and> (text_fraction t = [] \<or> last (text_fraction t) \<noteq> CHR ''0'')"
    by blast
  show "Decimal_String \<lparr>Width = w, Scale = s, Value = 0\<rparr> = Some ''0''"
    by (simp add: Decimal_String_def Sign_def)
  show "Decimal_String \<lparr>Width = w, Scale = 2, Value = 123\<rparr> = Some ''1.23''"
    by (simp add: Decimal_String_eval)
  show "Decimal_String \<lparr>Width = w, Scale = 0, Value = 12345\<rparr> = Some ''12345''"
    by (simp add: Decimal_String_eval)
  show "Decimal_String \<lparr>Width = w, Scale = 3, Value = 100\<rparr> = Some ''0.1''"
    by (simp add: Decimal_String_eval)
  show "Decimal_String \<lparr>Width = w, Scale = 2, Value = - 5\<rparr> = Some ''-0.05''"
    by (simp add: Decimal_String_eval)
qed

theorem Decimal_String_canonical_witness:
  "Decimal_String \<lparr>Width = 5, Scale = 3, Value = - 12340\<rparr> = Some ''-12.34''
   \<and> text_negative ''-12.34''
   \<and> text_whole ''-12.34'' = ''12''
   \<and> text_fraction ''-12.34'' = ''34''
   \<and> int (digits_value (''12'' @ ''34'')) * 10 ^ 3 = \<bar>- 12340\<bar> * 10 ^ length ''34''
   \<and> last ''34'' \<noteq> CHR ''0''"
proof -
  let ?d = "\<lparr>Width = 5, Scale = 3, Value = - 12340\<rparr>"
  have t: "Decimal_String ?d = Some ''-12.34''"
    by (simp add: Decimal_String_eval)
  have parts: "text_negative ''-12.34''" "text_whole ''-12.34'' = ''12''"
    "text_fraction ''-12.34'' = ''34''"
    by (simp_all add: text_negative_def text_body_def text_whole_def text_fraction_def)
  from Decimal_String_canonical [of ?d] obtain t' where
    "Decimal_String ?d = Some t'"
    "int (digits_value (text_whole t' @ text_fraction t')) * 10 ^ unat (Scale ?d)
       = \<bar>Value ?d\<bar> * 10 ^ length (text_fraction t')"
    "text_fraction t' = [] \<or> last (text_fraction t') \<noteq> CHR ''0''"
    by blast
  with t have "int (digits_value (text_whole ''-12.34'' @ text_fraction ''-12.34'')) * 10 ^ 3
       = \<bar>- 12340\<bar> * 10 ^ length (text_fraction ''-12.34'')"
    and "text_fraction ''-12.34'' = [] \<or> last (text_fraction ''-12.34'') \<noteq> CHR ''0''"
    by simp_all
  then have "int (digits_value (''12'' @ ''34'')) * 10 ^ 3 = \<bar>- 12340\<bar> * 10 ^ length ''34''"
    and "last ''34'' \<noteq> CHR ''0''"
    unfolding parts by simp_all
  with t parts show ?thesis
    by (intro conjI)
qed

end
